theory Spec2Isabelle
  imports Main "HOL-Library.Word" "HOL-Library.Signed_Division" "HOL-Library.Multiset"
    "HOL-Library.Sublist"
begin

section \<open>Time and durations\<close>

text \<open>
  A Go \<^verbatim>\<open>time.Time\<close> is an absolute instant; it is modelled as the (unbounded) number of
  nanoseconds since the epoch. \<^verbatim>\<open>time.Duration\<close> is an \<^verbatim>\<open>int64\<close> count of nanoseconds and is
  modelled as a 64-bit word read in two's complement.
\<close>

type_synonym Time = int
type_synonym Duration = "64 word"

definition minDuration :: int where
  "minDuration = - (2 ^ 63)"

definition maxDuration :: int where
  "maxDuration = 2 ^ 63 - 1"

definition Minute :: Duration where
  "Minute = 60000000000"

text \<open>\<^verbatim>\<open>t.Before(u)\<close>: comparison of instants.\<close>

definition Before :: "Time \<Rightarrow> Time \<Rightarrow> bool" where
  "Before t u = (t < u)"

text \<open>
  \<^verbatim>\<open>t.Sub(u)\<close>: the difference as a Duration; a difference outside the range of
  \<^verbatim>\<open>int64\<close> is replaced by the smallest or the largest Duration.
\<close>

definition Sub :: "Time \<Rightarrow> Time \<Rightarrow> Duration" where
  "Sub t u =
     (if t - u < minDuration then word_of_int minDuration
      else if maxDuration < t - u then word_of_int maxDuration
      else word_of_int (t - u))"

text \<open>\<^verbatim>\<open>t.Add(d)\<close> for instants far from the ends of the representable range.\<close>

definition Add :: "Time \<Rightarrow> Duration \<Rightarrow> Time" where
  "Add t d = t + sint d"

section \<open>Data model\<close>

record Event =
  Timestamp :: Time
  Type :: string

record Session =
  Start :: Time
  End :: Time
  Duration :: Duration
  Type :: string

section \<open>Deduplication\<close>

text \<open>
  The loop of \<^verbatim>\<open>deduplicateEvents\<close> from index 1: \<open>result\<close> is the slice built so far
  (never empty, it starts as \<open>[events[0]]\<close>), the second argument the events not yet visited.
\<close>

fun dedup_loop :: "Event list \<Rightarrow> Event list \<Rightarrow> Event list" where
  "dedup_loop result [] = result"
| "dedup_loop result (currentEvent # rest) =
     (let lastEvent = last result in
      if Event.Type currentEvent = Event.Type lastEvent \<and>
         Sub (Timestamp currentEvent) (Timestamp lastEvent) <s 2 * Minute
      then dedup_loop result rest
      else dedup_loop (result @ [currentEvent]) rest)"

definition deduplicateEvents :: "Event list \<Rightarrow> Event list" where
  "deduplicateEvents events =
     (case events of [] \<Rightarrow> events | e # rest \<Rightarrow> dedup_loop [e] rest)"

text \<open>
  The same scan written with the last retained event as an explicit argument: the events
  retained after \<open>p\<close> among \<open>cs\<close>.
\<close>

fun dedup_from :: "Event \<Rightarrow> Event list \<Rightarrow> Event list" where
  "dedup_from p [] = []"
| "dedup_from p (c # cs) =
     (if Event.Type c = Event.Type p \<and> Sub (Timestamp c) (Timestamp p) <s 2 * Minute
      then dedup_from p cs
      else c # dedup_from c cs)"

text \<open>
  The deduplication rule in the words of the specification: an event is dropped when its kind
  is that of the last retained event and its timestamp is within two minutes of it.
\<close>

definition within_two_minutes :: "Time \<Rightarrow> Time \<Rightarrow> bool" where
  "within_two_minutes t u = (\<bar>t - u\<bar> < 120000000000)"

fun spec_dedup_from :: "Event \<Rightarrow> Event list \<Rightarrow> Event list" where
  "spec_dedup_from p [] = []"
| "spec_dedup_from p (c # cs) =
     (if Event.Type c = Event.Type p \<and> within_two_minutes (Timestamp c) (Timestamp p)
      then spec_dedup_from p cs
      else c # spec_dedup_from c cs)"

fun spec_dedup :: "Event list \<Rightarrow> Event list" where
  "spec_dedup [] = []"
| "spec_dedup (e # es) = e # spec_dedup_from e es"

section \<open>Sorting\<close>

text \<open>
  \<^verbatim>\<open>sort.Slice(events, less)\<close> with \<open>less\<close> comparing timestamps by \<open>Before\<close> belongs to Go's
  library and is not stable. It is modelled by its contract: the slice afterwards is a
  permutation of the slice before, and no element is \<open>Before\<close> an earlier one.
\<close>

definition sorted_by_time :: "Event list \<Rightarrow> bool" where
  "sorted_by_time events =
     sorted_wrt (\<lambda>a b. \<not> Before (Timestamp b) (Timestamp a)) events"

definition sort_Slice_result :: "Event list \<Rightarrow> Event list \<Rightarrow> bool" where
  "sort_Slice_result before after = (mset after = mset before \<and> sorted_by_time after)"

definition nondecreasing :: "Event list \<Rightarrow> bool" where
  "nondecreasing events =
     (\<forall>i. Suc i < length events \<longrightarrow> Timestamp (events ! i) \<le> Timestamp (events ! Suc i))"

section \<open>Session reconstruction\<close>

text \<open>The separator of the labels: a space, the three bytes of U+2192, a space.\<close>

definition arrow :: string where
  "arrow = [CHR '' '', CHR 0xE2, CHR 0x86, CHR 0x92, CHR '' '']"

text \<open>
  The variables of \<^verbatim>\<open>calculateSessions\<close> that live across iterations: the sessions appended
  so far, the pointer \<open>sessionStart\<close> (\<open>None\<close> is \<open>nil\<close>) and \<open>sessionType\<close>.
\<close>

record loop_state =
  sessions :: "Session list"
  sessionStart :: "Event option"
  sessionType :: string

definition initial_state :: loop_state where
  "initial_state = \<lparr>sessions = [], sessionStart = None, sessionType = []\<rparr>"

text \<open>One iteration of the loop: the \<^verbatim>\<open>switch\<close> on the type of the event.\<close>

definition loop_body :: "loop_state \<Rightarrow> Event \<Rightarrow> loop_state" where
  "loop_body st event =
     (if Event.Type event = ''boot'' \<or> Event.Type event = ''resume'' then
        (let st1 =
           (case sessionStart st of
              None \<Rightarrow> st
            | Some start \<Rightarrow>
                st\<lparr>sessions := sessions st @
                  [\<lparr>Start = Timestamp start, End = Timestamp event,
                    Duration = Sub (Timestamp event) (Timestamp start),
                    Type = sessionType st @ arrow @ Event.Type event\<rparr>]\<rparr>)
         in st1\<lparr>sessionStart := Some event,
                sessionType := (if Event.Type event = ''boot'' then ''boot'' else ''resume'')\<rparr>)
      else if Event.Type event = ''shutdown'' \<or> Event.Type event = ''suspend'' \<or>
              Event.Type event = ''hibernate'' then
        (case sessionStart st of
           None \<Rightarrow> st
         | Some start \<Rightarrow>
             (let endType =
                (if Event.Type event = ''shutdown'' then ''shutdown''
                 else if Event.Type event = ''suspend'' then ''suspend''
                 else if Event.Type event = ''hibernate'' then ''hibernate''
                 else [])
              in \<lparr>sessions = sessions st @
                    [\<lparr>Start = Timestamp start, End = Timestamp event,
                      Duration = Sub (Timestamp event) (Timestamp start),
                      Type = sessionType st @ arrow @ endType\<rparr>],
                  sessionStart = None, sessionType = []\<rparr>))
      else st)"

fun session_loop :: "loop_state \<Rightarrow> Event list \<Rightarrow> loop_state" where
  "session_loop st [] = st"
| "session_loop st (event # rest) = session_loop (loop_body st event) rest"

text \<open>
  \<^verbatim>\<open>calculateSessions\<close>; the first argument is the value that \<^verbatim>\<open>time.Now()\<close> returns after
  the loop.
\<close>

definition calculateSessions :: "Time \<Rightarrow> Event list \<Rightarrow> Session list" where
  "calculateSessions now events =
     (let st = session_loop initial_state events in
      case sessionStart st of
        None \<Rightarrow> sessions st
      | Some start \<Rightarrow>
          sessions st @
            [\<lparr>Start = Timestamp start, End = now, Duration = Sub now (Timestamp start),
              Type = sessionType st @ arrow @ ''(still active)''\<rparr>])"

text \<open>Predicates on events and sessions used to state the properties.\<close>

definition opener :: "Event \<Rightarrow> bool" where
  "opener e = (Event.Type e = ''boot'' \<or> Event.Type e = ''resume'')"

definition closer :: "Event \<Rightarrow> bool" where
  "closer e =
     (Event.Type e = ''shutdown'' \<or> Event.Type e = ''suspend'' \<or> Event.Type e = ''hibernate'')"

definition still_active :: "Session \<Rightarrow> bool" where
  "still_active s = suffix ''(still active)'' (Session.Type s)"

text \<open>An anomaly session is one closed by an opener: its label ends in an opener's kind.\<close>

definition anomaly :: "Session \<Rightarrow> bool" where
  "anomaly s =
     (suffix (arrow @ ''boot'') (Session.Type s) \<or> suffix (arrow @ ''resume'') (Session.Type s))"

definition ordered_pair :: "Session \<Rightarrow> Session \<Rightarrow> bool" where
  "ordered_pair a b = (End a \<le> Start b \<and> (anomaly a \<longrightarrow> End a = Start b))"

text \<open>
  Invariants of the loop. While a session is open, \<open>sessionType\<close> is the kind of the event
  that \<open>sessionStart\<close> points to, and that event is an opener.
\<close>

definition open_inv :: "loop_state \<Rightarrow> bool" where
  "open_inv st =
     (case sessionStart st of
        None \<Rightarrow> sessionType st = []
      | Some start \<Rightarrow> opener start \<and> sessionType st = Event.Type start)"

definition duration_inv :: "Time \<Rightarrow> loop_state \<Rightarrow> Event list \<Rightarrow> bool" where
  "duration_inv now st rest =
     ((\<forall>s\<in>set (sessions st). Start s \<le> End s \<and> Duration s = Sub (End s) (Start s)) \<and>
      sorted_by_time rest \<and>
      (\<forall>start. sessionStart st = Some start \<longrightarrow>
         Timestamp start \<le> now \<and> (\<forall>e\<in>set rest. Timestamp start \<le> Timestamp e)) \<and>
      (\<forall>e\<in>set rest. Timestamp e \<le> now))"

definition order_inv :: "loop_state \<Rightarrow> Event list \<Rightarrow> bool" where
  "order_inv st rest =
     (successively ordered_pair (sessions st) \<and> sorted_by_time rest \<and>
      (case sessionStart st of
         Some start \<Rightarrow>
           (\<forall>e\<in>set rest. Timestamp start \<le> Timestamp e) \<and>
           (sessions st \<noteq> [] \<longrightarrow>
              End (last (sessions st)) \<le> Timestamp start \<and>
              (anomaly (last (sessions st)) \<longrightarrow> End (last (sessions st)) = Timestamp start))
       | None \<Rightarrow>
           (sessions st \<noteq> [] \<longrightarrow>
              \<not> anomaly (last (sessions st)) \<and>
              (\<forall>e\<in>set rest. End (last (sessions st)) \<le> Timestamp e))))"

section \<open>Summary\<close>

text \<open>
  What \<^verbatim>\<open>displaySummary\<close> computes before formatting. Go's \<^verbatim>\<open>/\<close> on \<^verbatim>\<open>int64\<close> truncates
  towards zero.
\<close>

record Summary =
  number_of_sessions :: nat
  total_uptime :: Duration
  average_session_time :: Duration
  longest_session :: Session
  shortest_session :: Session

definition int64_div :: "Duration \<Rightarrow> Duration \<Rightarrow> Duration" where
  "int64_div a b = word_of_int (sint a sdiv sint b)"

fun total_loop :: "Duration \<Rightarrow> Session list \<Rightarrow> Duration" where
  "total_loop totalDuration [] = totalDuration"
| "total_loop totalDuration (session # rest) =
     total_loop (totalDuration + Duration session) rest"

fun extremes_loop :: "Session \<times> Session \<Rightarrow> Session list \<Rightarrow> Session \<times> Session" where
  "extremes_loop (longest, shortest) [] = (longest, shortest)"
| "extremes_loop (longest, shortest) (session # rest) =
     extremes_loop
       (if Duration longest <s Duration session then session else longest,
        if Duration session <s Duration shortest then session else shortest) rest"

definition displaySummary :: "Session list \<Rightarrow> Summary option" where
  "displaySummary ss =
     (case ss of
        [] \<Rightarrow> None
      | first # others \<Rightarrow>
          (let totalDuration = total_loop 0 ss;
               avgDuration = int64_div totalDuration (word_of_nat (length ss));
               (longest, shortest) = extremes_loop (first, first) others
           in Some \<lparr>number_of_sessions = length ss, total_uptime = totalDuration,
                     average_session_time = avgDuration, longest_session = longest,
                     shortest_session = shortest\<rparr>))"

text \<open>
  The leftmost session of greatest (smallest) duration: every session before it is strictly
  shorter (longer), every session after it is not longer (not shorter).
\<close>

definition first_longest :: "Session list \<Rightarrow> Session \<Rightarrow> bool" where
  "first_longest ss l =
     (\<exists>i < length ss. ss ! i = l \<and>
        (\<forall>j < i. Duration (ss ! j) <s Duration l) \<and>
        (\<forall>j < length ss. Duration (ss ! j) \<le>s Duration l))"

definition first_shortest :: "Session list \<Rightarrow> Session \<Rightarrow> bool" where
  "first_shortest ss l =
     (\<exists>i < length ss. ss ! i = l \<and>
        (\<forall>j < i. Duration l <s Duration (ss ! j)) \<and>
        (\<forall>j < length ss. Duration l \<le>s Duration (ss ! j)))"

section \<open>Boot intervals\<close>

text \<open>
  The pattern \<^verbatim>\<open>(\w{3} \d{4}-\d{2}-\d{2} \d{2}:\d{2}:\d{2} \w+)\<close>: a sequence of single
  character classes and literals, followed by a greedy non-empty run of word characters.
  \<^verbatim>\<open>\w\<close> and \<^verbatim>\<open>\d\<close> match ASCII only.
\<close>

datatype atom = Word_char | Digit | Lit char

definition is_digit :: "char \<Rightarrow> bool" where
  "is_digit c = (c \<in> set ''0123456789'')"

definition is_word_char :: "char \<Rightarrow> bool" where
  "is_word_char c =
     (c \<in> set ''0123456789ABCDEFGHIJKLMNOPQRSTUVWXYZ_abcdefghijklmnopqrstuvwxyz'')"

fun atom_matches :: "atom \<Rightarrow> char \<Rightarrow> bool" where
  "atom_matches Word_char c = is_word_char c"
| "atom_matches Digit c = is_digit c"
| "atom_matches (Lit l) c = (c = l)"

text \<open>Matching a sequence of atoms at the start of a string; the result is what follows.\<close>

fun match_atoms :: "atom list \<Rightarrow> string \<Rightarrow> string option" where
  "match_atoms [] s = Some s"
| "match_atoms (a # as) [] = None"
| "match_atoms (a # as) (c # cs) = (if atom_matches a c then match_atoms as cs else None)"

definition dateRegex_head :: "atom list" where
  "dateRegex_head =
     [Word_char, Word_char, Word_char, Lit (CHR '' ''),
      Digit, Digit, Digit, Digit, Lit (CHR ''-''), Digit, Digit, Lit (CHR ''-''), Digit, Digit,
      Lit (CHR '' ''),
      Digit, Digit, Lit (CHR '':''), Digit, Digit, Lit (CHR '':''), Digit, Digit,
      Lit (CHR '' '')]"

text \<open>The length of the match of the pattern that starts at the first character, if any.\<close>

definition match_here :: "string \<Rightarrow> nat option" where
  "match_here s =
     (case match_atoms dateRegex_head s of
        None \<Rightarrow> None
      | Some rest \<Rightarrow>
          (if takeWhile is_word_char rest = [] then None
           else Some (length dateRegex_head + length (takeWhile is_word_char rest))))"

text \<open>
  \<^verbatim>\<open>dateRegex.FindAllString(line, -1)\<close>: the leftmost match, then the leftmost match in what
  follows it, and so on.
\<close>

function FindAllString :: "string \<Rightarrow> string list" where
  "FindAllString s =
     (if s = [] then []
      else case match_here s of
             None \<Rightarrow> FindAllString (tl s)
           | Some n \<Rightarrow> take n s # FindAllString (drop n s))"
  by pat_completeness auto
termination
  by (relation "measure length")
     (auto simp: match_here_def dateRegex_head_def split: option.splits if_splits)

text \<open>\<^verbatim>\<open>strings.SplitN(s, " ", n)\<close> for \<open>n \<ge> 0\<close>.\<close>

fun cut_space :: "string \<Rightarrow> (string \<times> string) option" where
  "cut_space [] = None"
| "cut_space (c # cs) =
     (if c = CHR '' '' then Some ([], cs)
      else case cut_space cs of None \<Rightarrow> None | Some (a, r) \<Rightarrow> Some (c # a, r))"

fun SplitN :: "string \<Rightarrow> nat \<Rightarrow> string list" where
  "SplitN s 0 = []"
| "SplitN s (Suc 0) = [s]"
| "SplitN s (Suc (Suc n)) =
     (case cut_space s of None \<Rightarrow> [s] | Some (a, r) \<Rightarrow> a # SplitN r (Suc n))"

text \<open>
  The body of the loop over the lines of the boot list in \<^verbatim>\<open>getSystemEvents\<close>.
  \<open>parse\<close> stands for \<^verbatim>\<open>time.Parse("Mon 2006-01-02 15:04:05 MST", _)\<close>, which depends on the
  time zone database of the host; \<open>None\<close> is its error. \<open>now\<close> is what \<^verbatim>\<open>time.Now()\<close> returns
  in this iteration.
\<close>

definition boot_line :: "(string \<Rightarrow> Time option) \<Rightarrow> Time \<Rightarrow> Event list \<Rightarrow> string \<Rightarrow> Event list"
  where
  "boot_line parse now events line =
     (let parts = SplitN line 3 in
      if length parts < 3 then events
      else
        let dates = FindAllString line in
        if 2 \<le> length dates then
          (case parse (dates ! 0) of
             None \<Rightarrow> events
           | Some startTime \<Rightarrow>
               (case parse (dates ! 1) of
                  None \<Rightarrow> events
                | Some endTime \<Rightarrow>
                    (let events1 = events @ [\<lparr>Timestamp = startTime, Type = ''boot''\<rparr>] in
                     if Before endTime (Add now (- 1 * Minute))
                     then events1 @ [\<lparr>Timestamp = endTime, Type = ''shutdown''\<rparr>]
                     else events1)))
        else events)"

fun boot_loop :: "(string \<Rightarrow> Time option) \<Rightarrow> Event list \<Rightarrow> (Time \<times> string) list \<Rightarrow> Event list"
  where
  "boot_loop parse events [] = events"
| "boot_loop parse events ((now, line) # rest) =
     boot_loop parse (boot_line parse now events line) rest"

text \<open>The events that one line contributes, in the words of the specification.\<close>

definition spec_line_events :: "(string \<Rightarrow> Time option) \<Rightarrow> Time \<Rightarrow> string \<Rightarrow> Event list" where
  "spec_line_events parse now line =
     (case FindAllString line of
        first # second # others \<Rightarrow>
          (case (parse first, parse second) of
             (Some startTime, Some endTime) \<Rightarrow>
               \<lparr>Timestamp = startTime, Type = ''boot''\<rparr> #
               (if 60000000000 < now - endTime
                then [\<lparr>Timestamp = endTime, Type = ''shutdown''\<rparr>] else [])
           | _ \<Rightarrow> [])
      | _ \<Rightarrow> [])"

section \<open>Facts about durations\<close>

lemma sint_int64:
  "- (2 ^ 63) \<le> x \<Longrightarrow> x < 2 ^ 63 \<Longrightarrow> sint (word_of_int x :: 64 word) = x"
  by (simp add: sint_sbintrunc' signed_take_bit_int_eq_self)

lemma sint_Sub:
  "sint (Sub t u) =
     (if t - u < minDuration then minDuration
      else if maxDuration < t - u then maxDuration else t - u)"
proof -
  have "sint (word_of_int (t - u) :: 64 word) = t - u"
    if "- (2 ^ 63) \<le> t - u" "t - u < 2 ^ 63"
    using that by (rule sint_int64)
  then show ?thesis
    unfolding Sub_def minDuration_def maxDuration_def
    by (simp del: of_int_diff)
qed

lemma Sub_less_two_minutes: "Sub t u <s 2 * Minute \<longleftrightarrow> t - u < 120000000000"
  by (simp add: word_sless_alt sint_Sub Minute_def minDuration_def maxDuration_def)

lemma Sub_nonneg_iff: "0 \<le>s Sub t u \<longleftrightarrow> u \<le> t"
  by (simp add: word_sle_eq sint_Sub minDuration_def maxDuration_def)

section \<open>Properties of the deduplication\<close>

lemma dedup_loop_from:
  "result \<noteq> [] \<Longrightarrow> dedup_loop result rest = result @ dedup_from (last result) rest"
  by (induction rest arbitrary: result) (auto simp: Let_def)

lemma deduplicateEvents_Cons: "deduplicateEvents (e # es) = e # dedup_from e es"
  by (simp add: deduplicateEvents_def dedup_loop_from)

lemma deduplicateEvents_Nil: "deduplicateEvents [] = []"
  by (simp add: deduplicateEvents_def)

lemma dedup_from_idem: "dedup_from p (dedup_from p es) = dedup_from p es"
  by (induction es arbitrary: p) auto

lemma set_dedup_from: "set (dedup_from p es) \<subseteq> set es"
  by (induction es arbitrary: p) auto

lemma sorted_wrt_dedup_from: "sorted_wrt P es \<Longrightarrow> sorted_wrt P (dedup_from p es)"
proof (induction es arbitrary: p)
  case Nil
  then show ?case by simp
next
  case (Cons c cs)
  have "set (dedup_from c cs) \<subseteq> set cs" by (rule set_dedup_from)
  with Cons show ?case by auto
qed

lemma sorted_by_time_dedup: "sorted_by_time es \<Longrightarrow> sorted_by_time (deduplicateEvents es)"
proof (cases es)
  case Nil
  then show ?thesis by (simp add: deduplicateEvents_Nil sorted_by_time_def)
next
  case (Cons e rest)
  assume "sorted_by_time es"
  with Cons have a: "\<forall>x\<in>set rest. \<not> Before (Timestamp x) (Timestamp e)"
    and b: "sorted_wrt (\<lambda>a b. \<not> Before (Timestamp b) (Timestamp a)) rest"
    by (simp_all add: sorted_by_time_def)
  from b have "sorted_wrt (\<lambda>a b. \<not> Before (Timestamp b) (Timestamp a)) (dedup_from e rest)"
    by (rule sorted_wrt_dedup_from)
  moreover have "set (dedup_from e rest) \<subseteq> set rest" by (rule set_dedup_from)
  ultimately show ?thesis using a Cons
    by (auto simp: deduplicateEvents_Cons sorted_by_time_def)
qed

lemma sorted_by_time_nondecreasing: "sorted_by_time es \<Longrightarrow> nondecreasing es"
  unfolding sorted_by_time_def nondecreasing_def
  by (auto simp: Before_def not_less dest: sorted_wrt_nth_less [where i = i and j = "Suc i" for i])

text \<open>The contract of the sort can be met for every slice, for instance by a stable sort.\<close>

lemma sort_Slice_result_exists: "sort_Slice_result events (sort_key Timestamp events)"
  unfolding sort_Slice_result_def sorted_by_time_def Before_def
  using sorted_sort_key [of Timestamp events]
  by (simp add: sorted_map not_less sorted_wrt_map)

text \<open>
  Claim C4. For every list of extracted events, the list obtained by sorting it with
  \<^verbatim>\<open>sort.Slice\<close> and then deduplicating it is non-decreasing by timestamp: each element's
  timestamp is at most that of the next element.
\<close>

theorem normalized_nondecreasing:
  assumes "sort_Slice_result events sorted_events"
  shows "nondecreasing (deduplicateEvents sorted_events)"
  using assms
  by (simp add: sort_Slice_result_def sorted_by_time_dedup sorted_by_time_nondecreasing)

theorem normalized_nondecreasing_witness:
  "sort_Slice_result
     [\<lparr>Timestamp = 32400000000000, Type = ''suspend''\<rparr>,
      \<lparr>Timestamp = 28800000000000, Type = ''boot''\<rparr>,
      \<lparr>Timestamp = 32460000000000, Type = ''suspend''\<rparr>]
     [\<lparr>Timestamp = 28800000000000, Type = ''boot''\<rparr>,
      \<lparr>Timestamp = 32400000000000, Type = ''suspend''\<rparr>,
      \<lparr>Timestamp = 32460000000000, Type = ''suspend''\<rparr>] \<and>
   nondecreasing (deduplicateEvents
     [\<lparr>Timestamp = 28800000000000, Type = ''boot''\<rparr>,
      \<lparr>Timestamp = 32400000000000, Type = ''suspend''\<rparr>,
      \<lparr>Timestamp = 32460000000000, Type = ''suspend''\<rparr>]) \<and>
   deduplicateEvents
     [\<lparr>Timestamp = 28800000000000, Type = ''boot''\<rparr>,
      \<lparr>Timestamp = 32400000000000, Type = ''suspend''\<rparr>,
      \<lparr>Timestamp = 32460000000000, Type = ''suspend''\<rparr>] =
     [\<lparr>Timestamp = 28800000000000, Type = ''boot''\<rparr>,
      \<lparr>Timestamp = 32400000000000, Type = ''suspend''\<rparr>]"
proof -
  have h: "sort_Slice_result
     [\<lparr>Timestamp = 32400000000000, Type = ''suspend''\<rparr>,
      \<lparr>Timestamp = 28800000000000, Type = ''boot''\<rparr>,
      \<lparr>Timestamp = 32460000000000, Type = ''suspend''\<rparr>]
     [\<lparr>Timestamp = 28800000000000, Type = ''boot''\<rparr>,
      \<lparr>Timestamp = 32400000000000, Type = ''suspend''\<rparr>,
      \<lparr>Timestamp = 32460000000000, Type = ''suspend''\<rparr>]"
    by (simp add: sort_Slice_result_def sorted_by_time_def Before_def)
  show ?thesis
    using h normalized_nondecreasing [OF h]
    by (simp add: deduplicateEvents_Cons Sub_less_two_minutes)
qed

lemma dedup_from_spec:
  "sorted_by_time (p # es) \<Longrightarrow> dedup_from p es = spec_dedup_from p es"
proof (induction es arbitrary: p)
  case Nil
  then show ?case by simp
next
  case (Cons c cs)
  from Cons.prems have pc: "Timestamp p \<le> Timestamp c"
    and s1: "sorted_by_time (p # cs)" and s2: "sorted_by_time (c # cs)"
    by (auto simp: sorted_by_time_def Before_def)
  from pc have "Sub (Timestamp c) (Timestamp p) <s 2 * Minute \<longleftrightarrow>
      within_two_minutes (Timestamp c) (Timestamp p)"
    by (simp add: Sub_less_two_minutes within_two_minutes_def)
  then show ?case using Cons.IH [OF s1] Cons.IH [OF s2] by simp
qed

text \<open>
  Claim C5, amended. For every event list that is non-decreasing by timestamp, the
  deduplication retains the first event unconditionally and, scanning left to right, drops an
  event if and only if its kind equals the kind of the immediately preceding retained event
  and its timestamp is less than two minutes after that of the retained event; all other
  events are retained in order.
\<close>

theorem dedup_follows_spec_on_sorted:
  assumes "sorted_by_time events"
  shows "deduplicateEvents events = spec_dedup events"
proof (cases events)
  case Nil
  then show ?thesis by (simp add: deduplicateEvents_Nil)
next
  case (Cons e es)
  with assms show ?thesis by (simp add: deduplicateEvents_Cons dedup_from_spec)
qed

theorem dedup_follows_spec_on_sorted_witness:
  "sorted_by_time
     [\<lparr>Timestamp = 28800000000000, Type = ''boot''\<rparr>,
      \<lparr>Timestamp = 32400000000000, Type = ''suspend''\<rparr>,
      \<lparr>Timestamp = 32460000000000, Type = ''suspend''\<rparr>,
      \<lparr>Timestamp = 32520000000000, Type = ''suspend''\<rparr>] \<and>
   deduplicateEvents
     [\<lparr>Timestamp = 28800000000000, Type = ''boot''\<rparr>,
      \<lparr>Timestamp = 32400000000000, Type = ''suspend''\<rparr>,
      \<lparr>Timestamp = 32460000000000, Type = ''suspend''\<rparr>,
      \<lparr>Timestamp = 32520000000000, Type = ''suspend''\<rparr>] =
     [\<lparr>Timestamp = 28800000000000, Type = ''boot''\<rparr>,
      \<lparr>Timestamp = 32400000000000, Type = ''suspend''\<rparr>,
      \<lparr>Timestamp = 32520000000000, Type = ''suspend''\<rparr>]"
proof -
  have h: "sorted_by_time
     [\<lparr>Timestamp = 28800000000000, Type = ''boot''\<rparr>,
      \<lparr>Timestamp = 32400000000000, Type = ''suspend''\<rparr>,
      \<lparr>Timestamp = 32460000000000, Type = ''suspend''\<rparr>,
      \<lparr>Timestamp = 32520000000000, Type = ''suspend''\<rparr>]"
    by (simp add: sorted_by_time_def Before_def)
  show ?thesis
    using h dedup_follows_spec_on_sorted [OF h]
    by (simp add: within_two_minutes_def)
qed

text \<open>
  On a list that is not sorted the rule of the code and the rule "within two minutes" differ:
  a second boot event two hours before the retained one is dropped.
\<close>

theorem dedup_far_apart_counterexample:
  "deduplicateEvents
     [\<lparr>Timestamp = 7200000000000, Type = ''boot''\<rparr>, \<lparr>Timestamp = 0, Type = ''boot''\<rparr>] =
     [\<lparr>Timestamp = 7200000000000, Type = ''boot''\<rparr>] \<and>
   spec_dedup
     [\<lparr>Timestamp = 7200000000000, Type = ''boot''\<rparr>, \<lparr>Timestamp = 0, Type = ''boot''\<rparr>] =
     [\<lparr>Timestamp = 7200000000000, Type = ''boot''\<rparr>, \<lparr>Timestamp = 0, Type = ''boot''\<rparr>] \<and>
   \<not> within_two_minutes 0 7200000000000"
  by (simp add: deduplicateEvents_Cons Sub_less_two_minutes within_two_minutes_def)

text \<open>
  Claim C6. Deduplication is idempotent: applying \<^verbatim>\<open>deduplicateEvents\<close> to its own output
  returns that output unchanged, for every event list.
\<close>

theorem dedup_idempotent:
  "deduplicateEvents (deduplicateEvents events) = deduplicateEvents events"
  by (cases events) (simp_all add: deduplicateEvents_Nil deduplicateEvents_Cons dedup_from_idem)

theorem dedup_idempotent_witness:
  "deduplicateEvents (deduplicateEvents
     [\<lparr>Timestamp = 0, Type = ''suspend''\<rparr>,
      \<lparr>Timestamp = 90000000000, Type = ''suspend''\<rparr>,
      \<lparr>Timestamp = 180000000000, Type = ''suspend''\<rparr>]) =
     [\<lparr>Timestamp = 0, Type = ''suspend''\<rparr>,
      \<lparr>Timestamp = 180000000000, Type = ''suspend''\<rparr>]"
  using dedup_idempotent [of
     "[\<lparr>Timestamp = 0, Type = ''suspend''\<rparr>,
       \<lparr>Timestamp = 90000000000, Type = ''suspend''\<rparr>,
       \<lparr>Timestamp = 180000000000, Type = ''suspend''\<rparr>]"]
  by (simp add: deduplicateEvents_Cons Sub_less_two_minutes)

section \<open>Properties of the session reconstruction\<close>

lemma session_loop_append:
  "session_loop st (xs @ ys) = session_loop (session_loop st xs) ys"
  by (induction xs arbitrary: st) auto

text \<open>The four rows of the transition table, and the events that are neither.\<close>

lemma body_opener_open:
  "opener e \<Longrightarrow> sessionStart st = Some start \<Longrightarrow>
   loop_body st e =
     \<lparr>sessions = sessions st @
        [\<lparr>Start = Timestamp start, End = Timestamp e,
          Duration = Sub (Timestamp e) (Timestamp start),
          Type = sessionType st @ arrow @ Event.Type e\<rparr>],
      sessionStart = Some e, sessionType = Event.Type e\<rparr>"
  by (auto simp: loop_body_def opener_def)

lemma body_opener_closed:
  "opener e \<Longrightarrow> sessionStart st = None \<Longrightarrow>
   loop_body st e =
     \<lparr>sessions = sessions st, sessionStart = Some e, sessionType = Event.Type e\<rparr>"
  by (auto simp: loop_body_def opener_def)

lemma body_closer_open:
  "closer e \<Longrightarrow> sessionStart st = Some start \<Longrightarrow>
   loop_body st e =
     \<lparr>sessions = sessions st @
        [\<lparr>Start = Timestamp start, End = Timestamp e,
          Duration = Sub (Timestamp e) (Timestamp start),
          Type = sessionType st @ arrow @ Event.Type e\<rparr>],
      sessionStart = None, sessionType = []\<rparr>"
  by (auto simp: loop_body_def closer_def)

lemma body_closer_closed:
  "closer e \<Longrightarrow> sessionStart st = None \<Longrightarrow> loop_body st e = st"
  by (auto simp: loop_body_def closer_def)

lemma body_other:
  "\<not> opener e \<Longrightarrow> \<not> closer e \<Longrightarrow> loop_body st e = st"
  by (auto simp: loop_body_def closer_def opener_def)

lemma open_inv_body: "open_inv st \<Longrightarrow> open_inv (loop_body st e)"
  by (auto simp: open_inv_def loop_body_def opener_def Let_def split: option.splits)

lemma open_inv_loop: "open_inv st \<Longrightarrow> open_inv (session_loop st es)"
  by (induction es arbitrary: st) (auto simp: open_inv_body)

lemma open_inv_initial: "open_inv initial_state"
  by (simp add: open_inv_def initial_state_def)

text \<open>
  Claim C1. For every input event list: when the loop of \<^verbatim>\<open>calculateSessions\<close> has a session
  open and reads a boot or resume event, it appends a session that starts at the recorded
  opening timestamp, ends at the timestamp of the event read and is labelled with the open
  kind, the arrow and the kind of the event read, and it keeps a session open, now with the
  timestamp and kind of the event read; when no session is open, it opens one with the
  timestamp and kind of the event read and appends nothing.
\<close>

theorem opener_transition:
  assumes "opener e"
  shows "(case sessionStart (session_loop initial_state pre) of
            Some start \<Rightarrow>
              opener start \<and>
              sessions (session_loop initial_state (pre @ [e])) =
                sessions (session_loop initial_state pre) @
                  [\<lparr>Start = Timestamp start, End = Timestamp e,
                    Duration = Sub (Timestamp e) (Timestamp start),
                    Type = Event.Type start @ arrow @ Event.Type e\<rparr>]
          | None \<Rightarrow>
              sessions (session_loop initial_state (pre @ [e])) =
                sessions (session_loop initial_state pre)) \<and>
         sessionStart (session_loop initial_state (pre @ [e])) = Some e \<and>
         sessionType (session_loop initial_state (pre @ [e])) = Event.Type e"
proof -
  let ?st = "session_loop initial_state pre"
  have inv: "open_inv ?st" by (simp add: open_inv_loop open_inv_initial)
  have step: "session_loop initial_state (pre @ [e]) = loop_body ?st e"
    by (simp add: session_loop_append)
  show ?thesis
  proof (cases "sessionStart ?st")
    case None
    then show ?thesis using assms by (simp add: step body_opener_closed)
  next
    case (Some start)
    with inv have "opener start" "sessionType ?st = Event.Type start"
      by (simp_all add: open_inv_def)
    with Some show ?thesis using assms by (simp add: step body_opener_open)
  qed
qed

theorem opener_transition_witness:
  "opener \<lparr>Timestamp = 32400000000000, Type = ''resume''\<rparr> \<and>
   sessionStart (session_loop initial_state [\<lparr>Timestamp = 28800000000000, Type = ''boot''\<rparr>]) =
     Some \<lparr>Timestamp = 28800000000000, Type = ''boot''\<rparr> \<and>
   sessions (session_loop initial_state
     ([\<lparr>Timestamp = 28800000000000, Type = ''boot''\<rparr>] @
      [\<lparr>Timestamp = 32400000000000, Type = ''resume''\<rparr>])) =
     [\<lparr>Start = 28800000000000, End = 32400000000000, Duration = 3600000000000,
       Type = ''boot'' @ arrow @ ''resume''\<rparr>] \<and>
   sessionStart (session_loop initial_state
     ([\<lparr>Timestamp = 28800000000000, Type = ''boot''\<rparr>] @
      [\<lparr>Timestamp = 32400000000000, Type = ''resume''\<rparr>])) =
     Some \<lparr>Timestamp = 32400000000000, Type = ''resume''\<rparr> \<and>
   sessionType (session_loop initial_state
     ([\<lparr>Timestamp = 28800000000000, Type = ''boot''\<rparr>] @
      [\<lparr>Timestamp = 32400000000000, Type = ''resume''\<rparr>])) = ''resume''"
proof -
  have h: "opener \<lparr>Timestamp = 32400000000000, Type = ''resume''\<rparr>"
    by (simp add: opener_def)
  show ?thesis
    using h opener_transition [OF h, of "[\<lparr>Timestamp = 28800000000000, Type = ''boot''\<rparr>]"]
    by (simp add: initial_state_def loop_body_def Sub_def minDuration_def maxDuration_def)
qed

text \<open>
  Claim C2. For every input event list: when the loop has a session open and reads a
  shutdown, suspend or hibernate event, it appends exactly one session that starts at the
  opening timestamp, ends at the timestamp of the event read and is labelled with the open
  kind, the arrow and the kind of the closer, and no session is open afterwards; when no
  session is open, it appends nothing and the state is unchanged.
\<close>

theorem closer_transition:
  assumes "closer e"
  shows "(case sessionStart (session_loop initial_state pre) of
            Some start \<Rightarrow>
              sessions (session_loop initial_state (pre @ [e])) =
                sessions (session_loop initial_state pre) @
                  [\<lparr>Start = Timestamp start, End = Timestamp e,
                    Duration = Sub (Timestamp e) (Timestamp start),
                    Type = Event.Type start @ arrow @ Event.Type e\<rparr>] \<and>
              sessionStart (session_loop initial_state (pre @ [e])) = None
          | None \<Rightarrow>
              session_loop initial_state (pre @ [e]) = session_loop initial_state pre)"
proof -
  let ?st = "session_loop initial_state pre"
  have inv: "open_inv ?st" by (simp add: open_inv_loop open_inv_initial)
  have step: "session_loop initial_state (pre @ [e]) = loop_body ?st e"
    by (simp add: session_loop_append)
  show ?thesis
  proof (cases "sessionStart ?st")
    case None
    then show ?thesis using assms by (simp add: step body_closer_closed)
  next
    case (Some start)
    with inv have "sessionType ?st = Event.Type start"
      by (simp_all add: open_inv_def)
    with Some show ?thesis using assms by (simp add: step body_closer_open)
  qed
qed

theorem closer_transition_witness:
  "closer \<lparr>Timestamp = 64800000000000, Type = ''shutdown''\<rparr> \<and>
   sessionStart (session_loop initial_state [\<lparr>Timestamp = 28800000000000, Type = ''boot''\<rparr>]) =
     Some \<lparr>Timestamp = 28800000000000, Type = ''boot''\<rparr> \<and>
   sessions (session_loop initial_state
     ([\<lparr>Timestamp = 28800000000000, Type = ''boot''\<rparr>] @
      [\<lparr>Timestamp = 64800000000000, Type = ''shutdown''\<rparr>])) =
     [\<lparr>Start = 28800000000000, End = 64800000000000, Duration = 36000000000000,
       Type = ''boot'' @ arrow @ ''shutdown''\<rparr>] \<and>
   sessionStart (session_loop initial_state
     ([\<lparr>Timestamp = 28800000000000, Type = ''boot''\<rparr>] @
      [\<lparr>Timestamp = 64800000000000, Type = ''shutdown''\<rparr>])) = None"
proof -
  have h: "closer \<lparr>Timestamp = 64800000000000, Type = ''shutdown''\<rparr>"
    by (simp add: closer_def)
  show ?thesis
    using h closer_transition [OF h, of "[\<lparr>Timestamp = 28800000000000, Type = ''boot''\<rparr>]"]
    by (simp add: initial_state_def loop_body_def Sub_def minDuration_def maxDuration_def)
qed

text \<open>What \<^verbatim>\<open>calculateSessions\<close> returns, by the state in which the loop ends.\<close>

lemma calc_open:
  "sessionStart (session_loop initial_state events) = Some start \<Longrightarrow>
   calculateSessions now events =
     sessions (session_loop initial_state events) @
       [\<lparr>Start = Timestamp start, End = now, Duration = Sub now (Timestamp start),
         Type = Event.Type start @ arrow @ ''(still active)''\<rparr>]"
  using open_inv_loop [OF open_inv_initial, of events]
  by (simp add: calculateSessions_def open_inv_def)

lemma calc_closed:
  "sessionStart (session_loop initial_state events) = None \<Longrightarrow>
   calculateSessions now events = sessions (session_loop initial_state events)"
  by (simp add: calculateSessions_def)

text \<open>The labels written inside the loop end in the kind of an event.\<close>

lemma not_still_active_event_label:
  "opener e \<or> closer e \<Longrightarrow> \<not> suffix ''(still active)'' (x @ arrow @ Event.Type e)"
  by (auto simp: opener_def closer_def arrow_def suffix_to_prefix)

lemma not_anomaly_closer_label:
  "closer e \<Longrightarrow>
   \<not> suffix (arrow @ ''boot'') (x @ arrow @ Event.Type e) \<and>
   \<not> suffix (arrow @ ''resume'') (x @ arrow @ Event.Type e)"
  by (auto simp: closer_def arrow_def suffix_to_prefix)

lemma not_anomaly_closer:
  "closer e \<Longrightarrow>
   \<not> anomaly \<lparr>Start = a, End = b, Duration = d, Type = x @ arrow @ Event.Type e\<rparr>"
  by (simp add: anomaly_def not_anomaly_closer_label)

lemma still_active_final:
  "still_active \<lparr>Start = a, End = b, Duration = d, Type = x @ arrow @ ''(still active)''\<rparr>"
  by (simp add: still_active_def suffix_def)

lemma body_sessions_cases:
  "sessions (loop_body st e) = sessions st \<or>
   (\<exists>start. sessionStart st = Some start \<and> (opener e \<or> closer e) \<and>
      sessions (loop_body st e) =
        sessions st @
          [\<lparr>Start = Timestamp start, End = Timestamp e,
            Duration = Sub (Timestamp e) (Timestamp start),
            Type = sessionType st @ arrow @ Event.Type e\<rparr>])"
proof (cases "sessionStart st")
  case None
  then show ?thesis
    by (cases "opener e"; cases "closer e")
       (simp_all add: body_opener_closed body_closer_closed body_other)
next
  case (Some start)
  then show ?thesis
    by (cases "opener e"; cases "closer e")
       (simp_all add: body_opener_open body_closer_open body_other)
qed

lemma no_still_active_body:
  "\<forall>s\<in>set (sessions st). \<not> still_active s \<Longrightarrow>
   \<forall>s\<in>set (sessions (loop_body st e)). \<not> still_active s"
  using body_sessions_cases [of st e]
  by (auto simp: still_active_def not_still_active_event_label)

lemma no_still_active_loop:
  "\<forall>s\<in>set (sessions st). \<not> still_active s \<Longrightarrow>
   \<forall>s\<in>set (sessions (session_loop st es)). \<not> still_active s"
proof (induction es arbitrary: st)
  case Nil
  then show ?case by simp
next
  case (Cons e es)
  from Cons.prems have "\<forall>s\<in>set (sessions (loop_body st e)). \<not> still_active s"
    by (rule no_still_active_body)
  then show ?case using Cons.IH by simp
qed

lemma no_still_active_run:
  "\<forall>s\<in>set (sessions (session_loop initial_state es)). \<not> still_active s"
  by (rule no_still_active_loop) (simp add: initial_state_def)

text \<open>
  Claim C3. For every input event list, at most one session of the output of
  \<^verbatim>\<open>calculateSessions\<close> carries the label "(still active)", and such a session is the last
  element; it is there exactly when a session is still open after the last event, it starts
  at the opening timestamp and it ends at the current instant \<open>now\<close>.
\<close>

theorem still_active_only_last:
  "length (filter still_active (calculateSessions now events)) \<le> 1 \<and>
   (\<forall>i < length (calculateSessions now events).
      still_active (calculateSessions now events ! i) \<longrightarrow>
      Suc i = length (calculateSessions now events)) \<and>
   ((\<exists>s \<in> set (calculateSessions now events). still_active s) \<longleftrightarrow>
      sessionStart (session_loop initial_state events) \<noteq> None) \<and>
   (case sessionStart (session_loop initial_state events) of
      None \<Rightarrow> calculateSessions now events = sessions (session_loop initial_state events)
    | Some start \<Rightarrow>
        calculateSessions now events =
          sessions (session_loop initial_state events) @
            [\<lparr>Start = Timestamp start, End = now, Duration = Sub now (Timestamp start),
              Type = Event.Type start @ arrow @ ''(still active)''\<rparr>])"
proof -
  let ?st = "session_loop initial_state events"
  have none: "\<forall>s\<in>set (sessions ?st). \<not> still_active s" by (rule no_still_active_run)
  then have f: "filter still_active (sessions ?st) = []" by (simp add: filter_empty_conv)
  have idx: "\<forall>i < length (sessions ?st). \<not> still_active (sessions ?st ! i)"
    using none by simp
  show ?thesis
  proof (cases "sessionStart ?st")
    case None
    then have eq: "calculateSessions now events = sessions ?st" by (rule calc_closed)
    show ?thesis using None none f idx by (simp add: eq)
  next
    case (Some start)
    then have eq: "calculateSessions now events = sessions ?st @
          [\<lparr>Start = Timestamp start, End = now, Duration = Sub now (Timestamp start),
            Type = Event.Type start @ arrow @ ''(still active)''\<rparr>]" by (rule calc_open)
    show ?thesis using Some f idx
      by (auto simp: eq still_active_final nth_append)
  qed
qed

theorem still_active_only_last_witness:
  "calculateSessions 75600000000000
     [\<lparr>Timestamp = 28800000000000, Type = ''boot''\<rparr>,
      \<lparr>Timestamp = 32400000000000, Type = ''suspend''\<rparr>,
      \<lparr>Timestamp = 36000000000000, Type = ''resume''\<rparr>] =
     [\<lparr>Start = 28800000000000, End = 32400000000000, Duration = 3600000000000,
       Type = ''boot'' @ arrow @ ''suspend''\<rparr>,
      \<lparr>Start = 36000000000000, End = 75600000000000, Duration = 39600000000000,
       Type = ''resume'' @ arrow @ ''(still active)''\<rparr>] \<and>
   sessionStart (session_loop initial_state
     [\<lparr>Timestamp = 28800000000000, Type = ''boot''\<rparr>,
      \<lparr>Timestamp = 32400000000000, Type = ''suspend''\<rparr>,
      \<lparr>Timestamp = 36000000000000, Type = ''resume''\<rparr>]) =
     Some \<lparr>Timestamp = 36000000000000, Type = ''resume''\<rparr> \<and>
   length (filter still_active (calculateSessions 75600000000000
     [\<lparr>Timestamp = 28800000000000, Type = ''boot''\<rparr>,
      \<lparr>Timestamp = 32400000000000, Type = ''suspend''\<rparr>,
      \<lparr>Timestamp = 36000000000000, Type = ''resume''\<rparr>])) = 1"
  using still_active_only_last [of 75600000000000
     "[\<lparr>Timestamp = 28800000000000, Type = ''boot''\<rparr>,
       \<lparr>Timestamp = 32400000000000, Type = ''suspend''\<rparr>,
       \<lparr>Timestamp = 36000000000000, Type = ''resume''\<rparr>]"]
  by (simp add: calculateSessions_def initial_state_def loop_body_def Sub_def minDuration_def
      maxDuration_def still_active_def arrow_def suffix_to_prefix)

text \<open>The loop keeps \<open>duration_inv\<close>: sessions end no earlier than they start.\<close>

lemma duration_inv_body:
  "duration_inv now st (e # rest) \<Longrightarrow> duration_inv now (loop_body st e) rest"
proof (cases "sessionStart st")
  case None
  assume "duration_inv now st (e # rest)"
  with None show ?thesis
    by (cases "opener e"; cases "closer e")
       (auto simp: body_opener_closed body_closer_closed body_other duration_inv_def
          sorted_by_time_def Before_def)
next
  case (Some start)
  assume "duration_inv now st (e # rest)"
  with Some show ?thesis
    by (cases "opener e"; cases "closer e")
       (auto simp: body_opener_open body_closer_open body_other duration_inv_def
          sorted_by_time_def Before_def)
qed

lemma duration_inv_loop:
  "duration_inv now st es \<Longrightarrow> duration_inv now (session_loop st es) []"
  by (induction es arbitrary: st) (auto simp: duration_inv_body)

text \<open>
  Claim C7, amended. For every event list that is non-decreasing by timestamp and has no
  event later than \<open>now\<close>, every session that \<^verbatim>\<open>calculateSessions\<close> produces ends no earlier
  than it starts, and its duration, which is the difference of end and start, is not
  negative; this includes the final "(still active)" session, which ends at \<open>now\<close>.
\<close>

theorem session_end_not_before_start:
  assumes "sorted_by_time events" and "\<forall>e\<in>set events. Timestamp e \<le> now"
  shows "\<forall>s\<in>set (calculateSessions now events).
           Start s \<le> End s \<and> Duration s = Sub (End s) (Start s) \<and> 0 \<le>s Duration s"
proof -
  let ?st = "session_loop initial_state events"
  have "duration_inv now initial_state events"
    using assms by (simp add: duration_inv_def initial_state_def)
  then have inv: "duration_inv now ?st []" by (rule duration_inv_loop)
  have "\<forall>s\<in>set (calculateSessions now events).
      Start s \<le> End s \<and> Duration s = Sub (End s) (Start s)"
  proof (cases "sessionStart ?st")
    case None
    then show ?thesis using inv by (simp add: calc_closed duration_inv_def)
  next
    case (Some start)
    then show ?thesis using inv by (auto simp: calc_open duration_inv_def)
  qed
  then show ?thesis by (auto simp: Sub_nonneg_iff)
qed

theorem session_end_not_before_start_witness:
  "sorted_by_time
     [\<lparr>Timestamp = 28800000000000, Type = ''boot''\<rparr>,
      \<lparr>Timestamp = 64800000000000, Type = ''shutdown''\<rparr>,
      \<lparr>Timestamp = 72000000000000, Type = ''boot''\<rparr>] \<and>
   28800000000000 \<le> (75600000000000 :: int) \<and>
   64800000000000 \<le> (75600000000000 :: int) \<and>
   72000000000000 \<le> (75600000000000 :: int) \<and>
   calculateSessions 75600000000000
     [\<lparr>Timestamp = 28800000000000, Type = ''boot''\<rparr>,
      \<lparr>Timestamp = 64800000000000, Type = ''shutdown''\<rparr>,
      \<lparr>Timestamp = 72000000000000, Type = ''boot''\<rparr>] =
     [\<lparr>Start = 28800000000000, End = 64800000000000, Duration = 36000000000000,
       Type = ''boot'' @ arrow @ ''shutdown''\<rparr>,
      \<lparr>Start = 72000000000000, End = 75600000000000, Duration = 3600000000000,
       Type = ''boot'' @ arrow @ ''(still active)''\<rparr>] \<and>
   0 \<le>s (36000000000000 :: Duration) \<and> 0 \<le>s (3600000000000 :: Duration)"
proof -
  have h1: "sorted_by_time
     [\<lparr>Timestamp = 28800000000000, Type = ''boot''\<rparr>,
      \<lparr>Timestamp = 64800000000000, Type = ''shutdown''\<rparr>,
      \<lparr>Timestamp = 72000000000000, Type = ''boot''\<rparr>]"
    by (simp add: sorted_by_time_def Before_def)
  have h2: "\<forall>e\<in>set
     [\<lparr>Timestamp = 28800000000000, Type = ''boot''\<rparr>,
      \<lparr>Timestamp = 64800000000000, Type = ''shutdown''\<rparr>,
      \<lparr>Timestamp = 72000000000000, Type = ''boot''\<rparr>]. Timestamp e \<le> 75600000000000"
    by simp
  show ?thesis
    using h1 session_end_not_before_start [OF h1 h2]
    by (simp add: calculateSessions_def initial_state_def loop_body_def Sub_def
        minDuration_def maxDuration_def)
qed

text \<open>
  Without the two conditions the property fails: a boot event later than \<open>now\<close> gives a
  final session that ends before it starts, with a negative duration, and a shutdown that
  comes in the list after a later boot gives a session that ends before it starts.
\<close>

theorem session_end_before_start_counterexample:
  "calculateSessions 60000000000 [\<lparr>Timestamp = 120000000000, Type = ''boot''\<rparr>] =
     [\<lparr>Start = 120000000000, End = 60000000000, Duration = - 60000000000,
       Type = ''boot'' @ arrow @ ''(still active)''\<rparr>] \<and>
   (60000000000 :: int) < 120000000000 \<and>
   (- 60000000000 :: Duration) <s 0 \<and>
   calculateSessions 300000000000
     [\<lparr>Timestamp = 120000000000, Type = ''boot''\<rparr>,
      \<lparr>Timestamp = 60000000000, Type = ''shutdown''\<rparr>] =
     [\<lparr>Start = 120000000000, End = 60000000000, Duration = - 60000000000,
       Type = ''boot'' @ arrow @ ''shutdown''\<rparr>]"
  by (simp add: calculateSessions_def initial_state_def loop_body_def Sub_def
      minDuration_def maxDuration_def word_sless_alt)

text \<open>The loop keeps \<open>order_inv\<close>: consecutive sessions do not overlap.\<close>

lemma successively_snoc:
  "successively P (xs @ [x]) \<longleftrightarrow> successively P xs \<and> (xs \<noteq> [] \<longrightarrow> P (last xs) x)"
  by (auto simp: successively_append_iff)

lemma successively_nth:
  "successively P xs \<Longrightarrow> Suc i < length xs \<Longrightarrow> P (xs ! i) (xs ! Suc i)"
proof (induction P xs arbitrary: i rule: successively.induct)
  case (3 P x y xs)
  then show ?case by (cases i) auto
qed auto

lemma order_inv_body: "order_inv st (e # rest) \<Longrightarrow> order_inv (loop_body st e) rest"
proof (cases "sessionStart st")
  case None
  assume "order_inv st (e # rest)"
  with None show ?thesis
    by (cases "opener e"; cases "closer e")
       (auto simp: body_opener_closed body_closer_closed body_other order_inv_def
          sorted_by_time_def Before_def)
next
  case (Some start)
  assume "order_inv st (e # rest)"
  with Some show ?thesis
    by (cases "opener e"; cases "closer e")
       (auto simp: body_opener_open body_closer_open body_other order_inv_def
          sorted_by_time_def Before_def successively_snoc ordered_pair_def not_anomaly_closer)
qed

lemma order_inv_loop: "order_inv st es \<Longrightarrow> order_inv (session_loop st es) []"
  by (induction es arbitrary: st) (auto simp: order_inv_body)

text \<open>
  Claim C10. For every event list that is non-decreasing by timestamp, the sessions that
  \<^verbatim>\<open>calculateSessions\<close> produces are in chronological order and do not overlap: of two
  consecutive sessions the earlier one ends no later than the later one starts, and an
  anomaly session ends exactly when the next session starts.
\<close>

theorem sessions_chronological:
  assumes "sorted_by_time events"
  shows "\<forall>i. Suc i < length (calculateSessions now events) \<longrightarrow>
           End (calculateSessions now events ! i) \<le>
             Start (calculateSessions now events ! Suc i) \<and>
           (anomaly (calculateSessions now events ! i) \<longrightarrow>
              End (calculateSessions now events ! i) =
                Start (calculateSessions now events ! Suc i))"
proof -
  let ?st = "session_loop initial_state events"
  have "order_inv initial_state events"
    using assms by (simp add: order_inv_def initial_state_def)
  then have inv: "order_inv ?st []" by (rule order_inv_loop)
  have "successively ordered_pair (calculateSessions now events)"
  proof (cases "sessionStart ?st")
    case None
    then show ?thesis using inv by (simp add: calc_closed order_inv_def)
  next
    case (Some start)
    then show ?thesis
      using inv by (auto simp: calc_open order_inv_def successively_snoc ordered_pair_def)
  qed
  then show ?thesis
    using successively_nth [of ordered_pair "calculateSessions now events"]
    by (auto simp: ordered_pair_def)
qed

theorem sessions_chronological_witness:
  "sorted_by_time
     [\<lparr>Timestamp = 28800000000000, Type = ''boot''\<rparr>,
      \<lparr>Timestamp = 32400000000000, Type = ''resume''\<rparr>,
      \<lparr>Timestamp = 36000000000000, Type = ''suspend''\<rparr>] \<and>
   calculateSessions 75600000000000
     [\<lparr>Timestamp = 28800000000000, Type = ''boot''\<rparr>,
      \<lparr>Timestamp = 32400000000000, Type = ''resume''\<rparr>,
      \<lparr>Timestamp = 36000000000000, Type = ''suspend''\<rparr>] =
     [\<lparr>Start = 28800000000000, End = 32400000000000, Duration = 3600000000000,
       Type = ''boot'' @ arrow @ ''resume''\<rparr>,
      \<lparr>Start = 32400000000000, End = 36000000000000, Duration = 3600000000000,
       Type = ''resume'' @ arrow @ ''suspend''\<rparr>] \<and>
   anomaly \<lparr>Start = 28800000000000, End = 32400000000000, Duration = 3600000000000,
       Type = ''boot'' @ arrow @ ''resume''\<rparr>"
proof -
  have h: "sorted_by_time
     [\<lparr>Timestamp = 28800000000000, Type = ''boot''\<rparr>,
      \<lparr>Timestamp = 32400000000000, Type = ''resume''\<rparr>,
      \<lparr>Timestamp = 36000000000000, Type = ''suspend''\<rparr>]"
    by (simp add: sorted_by_time_def Before_def)
  show ?thesis
    using h sessions_chronological [OF h, of 75600000000000]
    by (simp add: calculateSessions_def initial_state_def loop_body_def Sub_def
        minDuration_def maxDuration_def anomaly_def suffix_def)
qed

section \<open>Properties of the summary\<close>

lemma total_loop_sum: "total_loop acc ss = acc + sum_list (map Duration ss)"
  by (induction ss arbitrary: acc) (auto simp: add.assoc)

lemma sint_word_of_nat_64: "n < 2 ^ 63 \<Longrightarrow> sint (word_of_nat n :: 64 word) = int n"
proof -
  assume "n < 2 ^ 63"
  then have "int n < 2 ^ 63" by (metis of_nat_less_numeral_power_cancel_iff)
  then have "sint (word_of_int (int n) :: 64 word) = int n"
    by (intro sint_int64) auto
  then show ?thesis by simp
qed

lemma sdiv_pos_bounds:
  fixes k l :: int
  assumes "0 < l"
  shows "min k 0 \<le> k sdiv l \<and> k sdiv l \<le> max k 0"
proof -
  have "\<bar>k\<bar> div l \<le> \<bar>k\<bar> div 1"
    using assms by (intro zdiv_mono2) auto
  then have q: "0 \<le> \<bar>k\<bar> div l" "\<bar>k\<bar> div l \<le> \<bar>k\<bar>"
    using assms by (simp_all add: pos_imp_zdiv_nonneg_iff)
  have "k sdiv l = sgn k * (\<bar>k\<bar> div l)"
    using assms by (simp add: signed_divide_int_def)
  then show ?thesis using q by (cases "k < 0"; cases "k = 0") (auto simp: sgn_if)
qed

lemma sint_int64_div:
  assumes "0 < n" "n < 2 ^ 63"
  shows "sint (int64_div a (word_of_nat n)) = sint a sdiv int n"
proof -
  have n: "sint (word_of_nat n :: 64 word) = int n" using assms by (simp add: sint_word_of_nat_64)
  have lo: "- (2 ^ 63) \<le> sint a" using sint_ge [of a] by simp
  have hi: "sint a < 2 ^ 63" using sint_lt [of a] by simp
  have b: "min (sint a) 0 \<le> sint a sdiv int n \<and> sint a sdiv int n \<le> max (sint a) 0"
    using assms by (intro sdiv_pos_bounds) simp
  have "- (2 ^ 63) \<le> sint a sdiv int n \<and> sint a sdiv int n < 2 ^ 63"
    using b lo hi by linarith
  then show ?thesis unfolding int64_div_def n by (intro sint_int64) auto
qed

lemma first_longest_snoc:
  assumes "first_longest ds l"
  shows "first_longest (ds @ [x]) (if Duration l <s Duration x then x else l)"
proof -
  from assms obtain i where i: "i < length ds" "ds ! i = l"
    and before: "\<forall>j < i. Duration (ds ! j) <s Duration l"
    and all: "\<forall>j < length ds. Duration (ds ! j) \<le>s Duration l"
    unfolding first_longest_def by blast
  show ?thesis
  proof (cases "Duration l <s Duration x")
    case True
    have "\<forall>j < length ds. Duration (ds ! j) <s Duration x"
      using all True by (auto simp: word_sless_alt word_sle_eq) 
    then have "length ds < length (ds @ [x]) \<and> (ds @ [x]) ! length ds = x \<and>
        (\<forall>j < length ds. Duration ((ds @ [x]) ! j) <s Duration x) \<and>
        (\<forall>j < length (ds @ [x]). Duration ((ds @ [x]) ! j) \<le>s Duration x)"
      by (auto simp: nth_append less_Suc_eq word_sless_alt word_sle_eq)
    then show ?thesis using True unfolding first_longest_def by auto
  next
    case False
    then have "Duration x \<le>s Duration l" by (simp add: word_sless_alt word_sle_eq)
    then have "i < length (ds @ [x]) \<and> (ds @ [x]) ! i = l \<and>
        (\<forall>j < i. Duration ((ds @ [x]) ! j) <s Duration l) \<and>
        (\<forall>j < length (ds @ [x]). Duration ((ds @ [x]) ! j) \<le>s Duration l)"
      using i before all by (auto simp: nth_append less_Suc_eq)
    then show ?thesis using False unfolding first_longest_def by auto
  qed
qed

lemma first_shortest_snoc:
  assumes "first_shortest ds l"
  shows "first_shortest (ds @ [x]) (if Duration x <s Duration l then x else l)"
proof -
  from assms obtain i where i: "i < length ds" "ds ! i = l"
    and before: "\<forall>j < i. Duration l <s Duration (ds ! j)"
    and all: "\<forall>j < length ds. Duration l \<le>s Duration (ds ! j)"
    unfolding first_shortest_def by blast
  show ?thesis
  proof (cases "Duration x <s Duration l")
    case True
    have "\<forall>j < length ds. Duration x <s Duration (ds ! j)"
      using all True by (auto simp: word_sless_alt word_sle_eq) 
    then have "length ds < length (ds @ [x]) \<and> (ds @ [x]) ! length ds = x \<and>
        (\<forall>j < length ds. Duration x <s Duration ((ds @ [x]) ! j)) \<and>
        (\<forall>j < length (ds @ [x]). Duration x \<le>s Duration ((ds @ [x]) ! j))"
      by (auto simp: nth_append less_Suc_eq word_sless_alt word_sle_eq)
    then show ?thesis using True unfolding first_shortest_def by auto
  next
    case False
    then have "Duration l \<le>s Duration x" by (simp add: word_sless_alt word_sle_eq)
    then have "i < length (ds @ [x]) \<and> (ds @ [x]) ! i = l \<and>
        (\<forall>j < i. Duration l <s Duration ((ds @ [x]) ! j)) \<and>
        (\<forall>j < length (ds @ [x]). Duration l \<le>s Duration ((ds @ [x]) ! j))"
      using i before all by (auto simp: nth_append less_Suc_eq)
    then show ?thesis using False unfolding first_shortest_def by auto
  qed
qed

lemma extremes_loop_first:
  "first_longest ds l \<Longrightarrow> first_shortest ds s \<Longrightarrow>
   first_longest (ds @ rest) (fst (extremes_loop (l, s) rest)) \<and>
   first_shortest (ds @ rest) (snd (extremes_loop (l, s) rest))"
proof (induction rest arbitrary: ds l s)
  case Nil
  then show ?case by simp
next
  case (Cons x rest)
  have "first_longest (ds @ [x]) (if Duration l <s Duration x then x else l)"
    using Cons.prems(1) by (rule first_longest_snoc)
  moreover have "first_shortest (ds @ [x]) (if Duration x <s Duration s then x else s)"
    using Cons.prems(2) by (rule first_shortest_snoc)
  ultimately show ?case using Cons.IH [of "ds @ [x]"] by simp
qed

lemma first_single: "first_longest [x] x \<and> first_shortest [x] x"
  by (simp add: first_longest_def first_shortest_def)

lemma word_of_int_sum_sint:
  "(word_of_int (\<Sum>s\<leftarrow>ss. sint (Duration s)) :: 64 word) = sum_list (map Duration ss)"
  by (induction ss) simp_all

lemma sint_sum_exact:
  assumes "- (2 ^ 63) \<le> (\<Sum>s\<leftarrow>ss. sint (Duration s))"
    and "(\<Sum>s\<leftarrow>ss. sint (Duration s)) < 2 ^ 63"
  shows "sint (sum_list (map Duration ss)) = (\<Sum>s\<leftarrow>ss. sint (Duration s))"
  using sint_int64 [OF assms] by (simp only: word_of_int_sum_sint)

text \<open>
  Claim C9. For every non-empty session list, \<^verbatim>\<open>displaySummary\<close> computes the total
  duration as the sum of the durations of all sessions and the average as the total divided
  by the number of sessions, and it selects the longest and the shortest session by a scan
  from the second element that starts with the first session as candidate for both: the
  first occurrence wins ties, a later session replaces the candidate only when its duration
  is strictly greater, respectively strictly smaller. Durations are \<^verbatim>\<open>int64\<close> values: the sum
  is that of the type, and it is the sum of the integers whenever that fits the type; the
  quotient truncates towards zero. The length of a Go slice is below \<open>2 ^ 63\<close>.
\<close>

theorem summary_aggregates:
  assumes "ss \<noteq> []" and "length ss < 2 ^ 63"
  shows "\<exists>r. displaySummary ss = Some r \<and>
           total_uptime r = sum_list (map Duration ss) \<and>
           (- (2 ^ 63) \<le> (\<Sum>s\<leftarrow>ss. sint (Duration s)) \<and>
            (\<Sum>s\<leftarrow>ss. sint (Duration s)) < 2 ^ 63 \<longrightarrow>
              sint (total_uptime r) = (\<Sum>s\<leftarrow>ss. sint (Duration s))) \<and>
           average_session_time r = int64_div (total_uptime r) (word_of_nat (length ss)) \<and>
           sint (average_session_time r) = sint (total_uptime r) sdiv int (length ss) \<and>
           first_longest ss (longest_session r) \<and>
           first_shortest ss (shortest_session r)"
proof -
  from assms(1) obtain first others where ss: "ss = first # others" by (cases ss) auto
  define r where "r =
    \<lparr>number_of_sessions = length ss, total_uptime = total_loop 0 ss,
      average_session_time = int64_div (total_loop 0 ss) (word_of_nat (length ss)),
      longest_session = fst (extremes_loop (first, first) others),
      shortest_session = snd (extremes_loop (first, first) others)\<rparr>"
  have d: "displaySummary ss = Some r"
    unfolding r_def displaySummary_def ss by (simp add: case_prod_beta Let_def)
  have t: "total_uptime r = sum_list (map Duration ss)"
    by (simp add: r_def total_loop_sum)
  have e: "sint (total_uptime r) = (\<Sum>s\<leftarrow>ss. sint (Duration s))"
    if "- (2 ^ 63) \<le> (\<Sum>s\<leftarrow>ss. sint (Duration s))" "(\<Sum>s\<leftarrow>ss. sint (Duration s)) < 2 ^ 63"
    unfolding t using that by (rule sint_sum_exact)
  have a: "average_session_time r = int64_div (total_uptime r) (word_of_nat (length ss))"
    by (simp add: r_def)
  have "0 < length ss" using assms(1) by simp
  then have q: "sint (average_session_time r) = sint (total_uptime r) sdiv int (length ss)"
    unfolding a using assms(2) by (rule sint_int64_div)
  have "first_longest ([first] @ others) (fst (extremes_loop (first, first) others)) \<and>
      first_shortest ([first] @ others) (snd (extremes_loop (first, first) others))"
    using first_single [of first] by (intro extremes_loop_first) auto
  then have l: "first_longest ss (longest_session r)"
    and s: "first_shortest ss (shortest_session r)"
    by (simp_all add: r_def ss)
  show ?thesis using d t e a q l s by blast
qed

theorem summary_aggregates_witness:
  "[\<lparr>Start = 0, End = 10, Duration = 10, Type = ''boot'' @ arrow @ ''suspend''\<rparr>,
    \<lparr>Start = 20, End = 50, Duration = 30, Type = ''resume'' @ arrow @ ''suspend''\<rparr>,
    \<lparr>Start = 60, End = 90, Duration = 30, Type = ''resume'' @ arrow @ ''hibernate''\<rparr>,
    \<lparr>Start = 100, End = 110, Duration = 10, Type = ''resume'' @ arrow @ ''shutdown''\<rparr>,
    \<lparr>Start = 120, End = 125, Duration = 5, Type = ''boot'' @ arrow @ ''shutdown''\<rparr>] \<noteq> [] \<and>
   displaySummary
     [\<lparr>Start = 0, End = 10, Duration = 10, Type = ''boot'' @ arrow @ ''suspend''\<rparr>,
      \<lparr>Start = 20, End = 50, Duration = 30, Type = ''resume'' @ arrow @ ''suspend''\<rparr>,
      \<lparr>Start = 60, End = 90, Duration = 30, Type = ''resume'' @ arrow @ ''hibernate''\<rparr>,
      \<lparr>Start = 100, End = 110, Duration = 10, Type = ''resume'' @ arrow @ ''shutdown''\<rparr>,
      \<lparr>Start = 120, End = 125, Duration = 5, Type = ''boot'' @ arrow @ ''shutdown''\<rparr>] =
     Some \<lparr>number_of_sessions = 5, total_uptime = 85, average_session_time = 17,
       longest_session =
         \<lparr>Start = 20, End = 50, Duration = 30, Type = ''resume'' @ arrow @ ''suspend''\<rparr>,
       shortest_session =
         \<lparr>Start = 120, End = 125, Duration = 5, Type = ''boot'' @ arrow @ ''shutdown''\<rparr>\<rparr>"
proof -
  have h1: "[\<lparr>Start = 0, End = 10, Duration = 10, Type = ''boot'' @ arrow @ ''suspend''\<rparr>,
    \<lparr>Start = 20, End = 50, Duration = 30, Type = ''resume'' @ arrow @ ''suspend''\<rparr>,
    \<lparr>Start = 60, End = 90, Duration = 30, Type = ''resume'' @ arrow @ ''hibernate''\<rparr>,
    \<lparr>Start = 100, End = 110, Duration = 10, Type = ''resume'' @ arrow @ ''shutdown''\<rparr>,
    \<lparr>Start = 120, End = 125, Duration = 5, Type = ''boot'' @ arrow @ ''shutdown''\<rparr>] \<noteq> []"
    by simp
  have h2: "length
   [\<lparr>Start = 0, End = 10, Duration = 10, Type = ''boot'' @ arrow @ ''suspend''\<rparr>,
    \<lparr>Start = 20, End = 50, Duration = 30, Type = ''resume'' @ arrow @ ''suspend''\<rparr>,
    \<lparr>Start = 60, End = 90, Duration = 30, Type = ''resume'' @ arrow @ ''hibernate''\<rparr>,
    \<lparr>Start = 100, End = 110, Duration = 10, Type = ''resume'' @ arrow @ ''shutdown''\<rparr>,
    \<lparr>Start = 120, End = 125, Duration = 5, Type = ''boot'' @ arrow @ ''shutdown''\<rparr>]
      < 2 ^ 63"
    by simp
  show ?thesis
    using h1 summary_aggregates [OF h1 h2]
    by (simp add: displaySummary_def int64_div_def signed_divide_int_def word_sless_alt)
qed

section \<open>Properties of the boot interval parser\<close>

declare FindAllString.simps [simp del]

lemma cut_space_None: "cut_space s = None \<Longrightarrow> count_list s (CHR '' '') = 0"
  by (induction s) (auto split: if_splits option.splits)

lemma cut_space_Some:
  "cut_space s = Some (a, r) \<Longrightarrow> count_list s (CHR '' '') = Suc (count_list r (CHR '' ''))"
  by (induction s arbitrary: a) (auto split: if_splits option.splits)

lemma length_SplitN: "length (SplitN s n) = min n (Suc (count_list s (CHR '' '')))"
proof (induction s n rule: SplitN.induct)
  case (3 s n)
  show ?case
  proof (cases "cut_space s")
    case None
    then show ?thesis by (simp add: cut_space_None)
  next
    case (Some p)
    obtain a r where p: "p = (a, r)" by (cases p)
    from Some p have c: "count_list s (CHR '' '') = Suc (count_list r (CHR '' ''))"
      by (simp add: cut_space_Some)
    from 3 [OF Some p [symmetric]] show ?thesis using Some p c by simp
  qed
qed auto

lemma length_dateRegex_head: "length dateRegex_head = 24"
  by (simp add: dateRegex_head_def)

lemma match_atoms_length:
  "match_atoms as s = Some rest \<Longrightarrow> s = take (length as) s @ rest \<and> length as \<le> length s"
proof (induction as s rule: match_atoms.induct)
  case (3 a as c cs)
  then show ?case by (auto split: if_splits)
qed auto

lemma match_atoms_head_space:
  "match_atoms dateRegex_head s = Some rest \<Longrightarrow> s ! 3 = CHR '' '' \<and> 24 \<le> length s"
proof -
  assume m: "match_atoms dateRegex_head s = Some rest"
  from match_atoms_length [OF m] have len: "24 \<le> length s" by (simp add: length_dateRegex_head)
  then obtain c0 c1 c2 c3 t where s: "s = c0 # c1 # c2 # c3 # t"
    by (cases s; cases "tl s"; cases "tl (tl s)"; cases "tl (tl (tl s))") auto
  from m have "c3 = CHR '' ''"
    unfolding s dateRegex_head_def by (simp split: if_splits)
  then show ?thesis using len s by simp
qed

lemma match_here_space:
  assumes "match_here s = Some n"
  shows "24 \<le> n \<and> n \<le> length s \<and> 0 < count_list (take n s) (CHR '' '')"
proof -
  from assms obtain rest where m: "match_atoms dateRegex_head s = Some rest"
    and n: "n = length dateRegex_head + length (takeWhile is_word_char rest)"
    by (auto simp: match_here_def split: option.splits if_splits)
  from match_atoms_length [OF m] have s: "s = take 24 s @ rest" and len: "24 \<le> length s"
    by (simp_all add: length_dateRegex_head)
  have "length s = 24 + length rest" using s len
    by (metis length_append length_take min.absorb2)
  moreover have "length (takeWhile is_word_char rest) \<le> length rest" by (rule length_takeWhile_le)
  ultimately have n_le: "n \<le> length s" and n_ge: "24 \<le> n" using n by (simp_all add: length_dateRegex_head)
  from match_atoms_head_space [OF m] have "s ! 3 = CHR '' ''" by simp
  then have "take n s ! 3 = CHR '' ''" using n_ge by simp
  moreover have "3 < length (take n s)" using n_ge n_le by simp
  ultimately have "CHR '' '' \<in> set (take n s)" by (metis nth_mem)
  then have "count_list (take n s) (CHR '' '') \<noteq> 0" by (simp only: count_list_0_iff not_not)
  then show ?thesis using n_le n_ge by simp
qed

lemma length_FindAllString: "length (FindAllString s) \<le> count_list s (CHR '' '')"
proof (induction s rule: FindAllString.induct)
  case (1 s)
  show ?case
  proof (cases "s = []")
    case True
    then show ?thesis by (simp add: FindAllString.simps [of "[]"])
  next
    case False
    show ?thesis
    proof (cases "match_here s")
      case None
      have "length (FindAllString (tl s)) \<le> count_list (tl s) (CHR '' '')"
        using 1(1) False None by simp
      moreover have "count_list (tl s) (CHR '' '') \<le> count_list s (CHR '' '')"
        using False by (cases s) auto
      ultimately show ?thesis using False None by (simp add: FindAllString.simps [of s])
    next
      case (Some n)
      have ih: "length (FindAllString (drop n s)) \<le> count_list (drop n s) (CHR '' '')"
        using 1(2) False Some by simp
      have "count_list s (CHR '' '') =
          count_list (take n s) (CHR '' '') + count_list (drop n s) (CHR '' '')"
        by (metis append_take_drop_id count_list_append)
      moreover have "0 < count_list (take n s) (CHR '' '')"
        using match_here_space [OF Some] by simp
      ultimately show ?thesis using ih False Some by (simp add: FindAllString.simps [of s])
    qed
  qed
qed

lemma two_dates_three_parts: "2 \<le> length (FindAllString line) \<Longrightarrow> length (SplitN line 3) = 3"
  using length_FindAllString [of line] by (simp add: length_SplitN)

lemma Before_minute_ago: "Before e (Add now (- Minute)) \<longleftrightarrow> 60000000000 < now - e"
  by (auto simp: Before_def Add_def Minute_def)

lemma boot_line_spec:
  "boot_line parse now events line = events @ spec_line_events parse now line"
proof (cases "2 \<le> length (FindAllString line)")
  case True
  then obtain first second others where d: "FindAllString line = first # second # others"
    by (cases "FindAllString line"; cases "tl (FindAllString line)") auto
  from True have "length (SplitN line 3) = 3" by (rule two_dates_three_parts)
  then show ?thesis
    unfolding boot_line_def spec_line_events_def d
    by (simp add: Let_def Before_minute_ago split: option.splits)
next
  case False
  then have "FindAllString line = [] \<or> (\<exists>d. FindAllString line = [d])"
    by (cases "FindAllString line"; cases "tl (FindAllString line)") auto
  then show ?thesis
    unfolding boot_line_def spec_line_events_def
    by (auto simp: Let_def)
qed

text \<open>
  Claim C8. Every line of the boot list in which the pattern matches at least twice and
  whose first two matches both parse contributes a boot event at the parsed start instant,
  unconditionally, followed by a shutdown event at the parsed end instant if and only if
  that instant is more than one minute before the instant \<open>now\<close> read for that line; a line
  with fewer than two matches, or one of whose first two matches does not parse, contributes
  no event.
\<close>

theorem boot_lines_events:
  "boot_loop parse events lines =
     events @ concat (map (\<lambda>(now, line). spec_line_events parse now line) lines)"
proof (induction lines arbitrary: events)
  case Nil
  then show ?case by simp
next
  case (Cons p lines)
  obtain now line where p: "p = (now, line)" by (cases p)
  show ?case unfolding p by (simp add: Cons.IH boot_line_spec)
qed

theorem boot_lines_events_witness:
  "boot_loop
     (\<lambda>s. if s = ''Mon 2025-01-01 08:00:00 UTC'' then Some 1735718400000000000
          else if s = ''Mon 2025-01-01 18:00:00 UTC'' then Some 1735754400000000000
          else None)
     []
     [(1735754520000000000,
       ''-2 abc123def Mon 2025-01-01 08:00:00 UTC Mon 2025-01-01 18:00:00 UTC''),
      (1735754430000000000,
       ''-1 abc123def Mon 2025-01-01 08:00:00 UTC Mon 2025-01-01 18:00:00 UTC''),
      (1735754430000000000,
       ''0 abc123def Mon 2025-01-01 08:00:00 UTC Mon 2025-13-01 18:00:00 UTC''),
      (1735754430000000000, ''1 abc123def Mon 2025-01-01 08:00:00 UTC'')] =
     [\<lparr>Timestamp = 1735718400000000000, Type = ''boot''\<rparr>,
      \<lparr>Timestamp = 1735754400000000000, Type = ''shutdown''\<rparr>,
      \<lparr>Timestamp = 1735718400000000000, Type = ''boot''\<rparr>]"
  using boot_lines_events [of
     "\<lambda>s. if s = ''Mon 2025-01-01 08:00:00 UTC'' then Some 1735718400000000000
          else if s = ''Mon 2025-01-01 18:00:00 UTC'' then Some 1735754400000000000
          else None"
     "[]"
     "[(1735754520000000000,
       ''-2 abc123def Mon 2025-01-01 08:00:00 UTC Mon 2025-01-01 18:00:00 UTC''),
      (1735754430000000000,
       ''-1 abc123def Mon 2025-01-01 08:00:00 UTC Mon 2025-01-01 18:00:00 UTC''),
      (1735754430000000000,
       ''0 abc123def Mon 2025-01-01 08:00:00 UTC Mon 2025-13-01 18:00:00 UTC''),
      (1735754430000000000, ''1 abc123def Mon 2025-01-01 08:00:00 UTC'')]"]
  by (simp add: spec_line_events_def FindAllString.simps match_here_def dateRegex_head_def
      is_word_char_def is_digit_def)

end
